theory Spec2Isabelle
  imports Complex_Main "HOL-Library.Multiset" "HOL-Library.Log_Nat"
begin

section \<open>Data model of the vocabulary trainer (src/src/App.tsx)\<close>

text \<open>
  The component \<open>App\<close> keeps its state in React \<open>useState\<close> cells and changes it in
  event handlers. Each handler is embedded as a function from the state before the
  event to the state after it. Within one handler the setters only queue updates, so
  every read in a handler sees the state of the last render; no handler below reads a
  cell after writing it, except \<open>setUsedWordIds\<close> in \<open>setupQuestion\<close>, which is a
  functional update and is applied to the queued value.

  Numbers (\<open>wrongCount\<close>, \<open>correctTotal\<close>, the counters of the session) are JavaScript
  numbers holding integers; they are embedded as \<open>int\<close>.
\<close>

record Word =
  id_word :: string
  english :: string
  japanese :: string
  wrongCount :: int
  correctTotal :: int

datatype Mode = EnToJa | JaToEn

datatype SessionType = Normal | Training

datatype Feedback = Correct | Wrong

record Range =
  range_start :: int
  range_end :: int

text \<open>
  The outcome of the calls of \<open>Math.random\<close> made while one handler runs:
  \<open>pick\<close> stands for the value of \<open>Math.floor(Math.random() * availableWords.length)\<close>,
  \<open>shuffleWrong\<close> and \<open>shuffleOptions\<close> for the rearrangement done by the two calls
  \<open>sort(() => 0.5 - Math.random())\<close> in \<open>setupQuestion\<close>.
\<close>

record Draws =
  pick :: nat
  shuffleWrong :: "string list \<Rightarrow> string list"
  shuffleOptions :: "string list \<Rightarrow> string list"

text \<open>
  The state cells of \<open>App\<close>. \<open>vocabData\<close> is the entry \<open>'vocab-data'\<close> of the local
  storage (\<open>None\<close>: no entry). \<open>showOptions\<close> exists in the second version of the file
  only (src/unnamed/part_000), where \<open>setupQuestion\<close> resets it; the two versions
  agree on everything else that is embedded here.
\<close>

record AppState =
  allWords :: "Word list"
  currentWord :: "Word option"
  options :: "string list"
  feedback :: "Feedback option"
  sessionType :: SessionType
  mode :: Mode
  range_conf :: Range
  sessionLimit :: int
  solvedCount :: int
  correctSession :: int
  isFinished :: bool
  usedWordIds :: "string list"
  showOptions :: bool
  vocabData :: "Word list option"

section \<open>Library functions of the JavaScript runtime\<close>

text \<open>
  \<open>Array.prototype.sort\<close> with a comparison function is stable (ECMAScript 2019):
  \<open>a\<close> is placed before \<open>b\<close> when \<open>cmp a b < 0\<close>, after it when \<open>cmp a b > 0\<close>, and
  elements that compare equal keep their order. \<open>place cmp x ys\<close> puts an element
  \<open>x\<close> that stood in front of all of \<open>ys\<close> into the sorted list \<open>ys\<close>.
\<close>

fun place :: "('a \<Rightarrow> 'a \<Rightarrow> int) \<Rightarrow> 'a \<Rightarrow> 'a list \<Rightarrow> 'a list" where
  "place cmp x [] = [x]"
| "place cmp x (y # ys) = (if cmp x y \<le> 0 then x # y # ys else y # place cmp x ys)"

fun sort_js :: "('a \<Rightarrow> 'a \<Rightarrow> int) \<Rightarrow> 'a list \<Rightarrow> 'a list" where
  "sort_js cmp [] = []"
| "sort_js cmp (x # xs) = place cmp x (sort_js cmp xs)"

text \<open>
  \<open>sort(() => 0.5 - Math.random())\<close> rearranges the array it is called on; which
  rearrangement comes out depends on the draws and on the engine. All that is assumed
  of it is that the result holds the same elements, each as often as before.
\<close>

definition rearranges :: "(string list \<Rightarrow> string list) \<Rightarrow> bool" where
  "rearranges sh \<longleftrightarrow> (\<forall>xs. mset (sh xs) = mset xs)"

section \<open>The question-session engine\<close>

text \<open>
  \<open>filteredWords\<close> (the \<open>useMemo\<close> of lines 73-78). \<open>parseInt\<close> of the runtime is a
  parameter; \<open>None\<close> stands for \<open>NaN\<close>, for which both comparisons are false.
\<close>

definition filteredWords :: "(string \<Rightarrow> int option) \<Rightarrow> Range \<Rightarrow> Word list \<Rightarrow> Word list" where
  "filteredWords parseInt r ws =
     filter (\<lambda>w. case parseInt (id_word w) of
                   None \<Rightarrow> False
                 | Some idNum \<Rightarrow> idNum \<ge> range_start r \<and> idNum \<le> range_end r) ws"

text \<open>
  \<open>pickNextWord\<close> (lines 80-91); its first argument is the value of \<open>filteredWords\<close>
  that the closure reads. \<open>sorted[0]\<close> is the head of the sorted copy. The index of
  the random branch lies in \<open>{0..<length availableWords}\<close>: the draw is reduced into
  that range.
\<close>

definition pickNextWord :: "Word list \<Rightarrow> string list \<Rightarrow> SessionType \<Rightarrow> nat \<Rightarrow> Word option" where
  "pickNextWord fw excludeIds type d =
     (let availableWords = filter (\<lambda>w. id_word w \<notin> set excludeIds) fw in
      if length availableWords = 0 then None
      else if type = Training then
        (case sort_js (\<lambda>a b. wrongCount b - wrongCount a) availableWords of
           [] \<Rightarrow> None
         | w # _ \<Rightarrow> Some w)
      else Some (availableWords ! (d mod length availableWords)))"

text \<open>The expression \<open>mode === 'enToJa' ? w.japanese : w.english\<close>.\<close>

definition answerTerm :: "Mode \<Rightarrow> Word \<Rightarrow> string" where
  "answerTerm m w = (if m = EnToJa then japanese w else english w)"

text \<open>The constants \<open>wrongAnswers\<close>, \<open>shuffledWrong\<close> and the argument of \<open>setOptions\<close>
  in \<open>setupQuestion\<close> (lines 106-111).\<close>

definition wrongAnswers :: "Mode \<Rightarrow> Word list \<Rightarrow> string \<Rightarrow> string list" where
  "wrongAnswers m ws correctAnswer =
     map (answerTerm m) (filter (\<lambda>w. answerTerm m w \<noteq> correctAnswer) ws)"

definition shuffledWrong :: "Draws \<Rightarrow> Mode \<Rightarrow> Word list \<Rightarrow> string \<Rightarrow> string list" where
  "shuffledWrong dr m ws correctAnswer =
     take 3 (shuffleWrong dr (wrongAnswers m ws correctAnswer))"

definition newOptions :: "Draws \<Rightarrow> Mode \<Rightarrow> Word list \<Rightarrow> Word \<Rightarrow> string list" where
  "newOptions dr m ws word =
     (let correctAnswer = answerTerm m word in
      shuffleOptions dr (shuffledWrong dr m ws correctAnswer @ [correctAnswer]))"

definition setupQuestion :: "Draws \<Rightarrow> Word \<Rightarrow> AppState \<Rightarrow> AppState" where
  "setupQuestion dr word s =
     s\<lparr>currentWord := Some word,
       usedWordIds := usedWordIds s @ [id_word word],
       showOptions := False,
       options := newOptions dr (mode s) (allWords s) word,
       feedback := None\<rparr>"

text \<open>\<open>startSession\<close> (lines 93-101).\<close>

definition startSession ::
    "(string \<Rightarrow> int option) \<Rightarrow> Draws \<Rightarrow> SessionType \<Rightarrow> AppState \<Rightarrow> AppState" where
  "startSession parseInt dr type s =
     (let s1 = s\<lparr>sessionType := type, solvedCount := 0, correctSession := 0,
                 isFinished := False, usedWordIds := []\<rparr> in
      case pickNextWord (filteredWords parseInt (range_conf s) (allWords s)) [] type (pick dr) of
        Some firstWord \<Rightarrow> setupQuestion dr firstWord s1
      | None \<Rightarrow> s1)"

text \<open>The function mapped over \<open>allWords\<close> in \<open>handleAnswer\<close> (lines 122-131).\<close>

definition updatedWord :: "string \<Rightarrow> bool \<Rightarrow> Word \<Rightarrow> Word" where
  "updatedWord currentId isCorrect w =
     (if id_word w = currentId
      then w\<lparr>wrongCount := (if isCorrect then max 0 (wrongCount w - 1) else wrongCount w + 1),
             correctTotal := (if isCorrect then 1 else 0)\<rparr>
      else w)"

text \<open>\<open>handleAnswer\<close> (lines 115-134). \<open>feedback\<close> is truthy exactly when it is set.\<close>

definition handleAnswer :: "string \<Rightarrow> AppState \<Rightarrow> AppState" where
  "handleAnswer answer s =
     (case currentWord s of
        None \<Rightarrow> s
      | Some cw \<Rightarrow>
          if feedback s \<noteq> None \<or> isFinished s then s
          else
            let correctAnswer = answerTerm (mode s) cw;
                isCorrect = (answer = correctAnswer);
                updatedWords = map (updatedWord (id_word cw) isCorrect) (allWords s)
            in s\<lparr>feedback := Some (if isCorrect then Correct else Wrong),
                 correctSession := (if isCorrect then correctSession s + 1 else correctSession s),
                 allWords := updatedWords,
                 vocabData := Some updatedWords\<rparr>)"

text \<open>
  \<open>proceedNext\<close> (lines 136-149). \<open>finish\<close> names the three setter calls
  \<open>setIsFinished(true); setCurrentWord(null); setFeedback(null)\<close> that both of its
  finishing branches make.
\<close>

definition finish :: "AppState \<Rightarrow> AppState" where
  "finish s = s\<lparr>isFinished := True, currentWord := None, feedback := None\<rparr>"

definition proceedNext :: "(string \<Rightarrow> int option) \<Rightarrow> Draws \<Rightarrow> AppState \<Rightarrow> AppState" where
  "proceedNext parseInt dr s =
     (if feedback s = None \<or> isFinished s \<or> currentWord s = None then s
      else
        let nextCount = solvedCount s + 1;
            s1 = s\<lparr>solvedCount := nextCount\<rparr>
        in if nextCount \<ge> sessionLimit s then finish s1
           else
             case pickNextWord (filteredWords parseInt (range_conf s) (allWords s))
                    (usedWordIds s) (sessionType s) (pick dr) of
               Some nextWord \<Rightarrow> setupQuestion dr nextWord s1
             | None \<Rightarrow> finish s1)"

text \<open>
  JavaScript numbers are IEEE 754 double-precision values, and \<open>/\<close> and \<open>*\<close> return
  the exact result rounded to the nearest double, a tie going to the even significand.
  \<open>toDouble\<close> is that rounding on the rationals: \<open>exponent x\<close> is the \<open>e\<close> with
  \<open>2 ^ e \<le> x < 2 ^ (e + 1)\<close>, the doubles of that binade are the multiples of
  \<open>2 ^ (e - 52)\<close>, and \<open>roundEven\<close> picks the nearest multiple. Overflow and
  subnormal numbers are left out; a quotient of two counters and its hundredfold lie in
  the normal range.
\<close>

definition roundEven :: "rat \<Rightarrow> int" where
  "roundEven y =
     (let f = \<lfloor>y\<rfloor>; r = y - of_int f in
      if r < 1 / 2 then f else if 1 / 2 < r then f + 1 else if even f then f else f + 1)"

definition exponent :: "rat \<Rightarrow> int" where
  "exponent x =
     (if 1 \<le> x then int (floorlog 2 (nat \<lfloor>x\<rfloor>)) - 1
      else - int (floorlog 2 (nat \<lceil>1 / x\<rceil> - 1)))"

definition toDouble :: "rat \<Rightarrow> rat" where
  "toDouble x =
     (if x = 0 then 0
      else let u = 2 powi (exponent \<bar>x\<bar> - 52)
           in sgn x * of_int (roundEven (\<bar>x\<bar> / u)) * u)"

text \<open>
  The percentage shown on the result screen (line 220):
  \<open>Math.round((correctSession / (solvedCount || 1)) * 100)\<close>. \<open>solvedCount || 1\<close> is
  \<open>1\<close> when \<open>solvedCount\<close> is \<open>0\<close>. The counters are integers, which are doubles as
  they stand; the quotient and the product are each rounded to a double. \<open>Math.round\<close>
  returns the nearest integer, a half going upwards.
\<close>

definition Math_round :: "rat \<Rightarrow> int" where
  "Math_round x = \<lfloor>x + 1 / 2\<rfloor>"

definition accuracy :: "int \<Rightarrow> int \<Rightarrow> int" where
  "accuracy correctSession' solvedCount' =
     Math_round (toDouble (toDouble (of_int correctSession' /
                                     of_int (if solvedCount' = 0 then 1 else solvedCount')) * 100))"

text \<open>The events of a session and a run of them.\<close>

datatype Event =
    StartSession SessionType Draws
  | HandleAnswer string
  | ProceedNext Draws

fun step :: "(string \<Rightarrow> int option) \<Rightarrow> AppState \<Rightarrow> Event \<Rightarrow> AppState" where
  "step parseInt s (StartSession type dr) = startSession parseInt dr type s"
| "step parseInt s (HandleAnswer answer) = handleAnswer answer s"
| "step parseInt s (ProceedNext dr) = proceedNext parseInt dr s"

definition run :: "(string \<Rightarrow> int option) \<Rightarrow> AppState \<Rightarrow> Event list \<Rightarrow> AppState" where
  "run parseInt s evs = foldl (step parseInt) s evs"

text \<open>
  The words asked in a run, read off the states it passes through. A step asks a word
  when no question is open before it (there is no current word, or feedback is set) and
  afterwards a current word stands without feedback; that current word is the word
  asked.
\<close>

definition newQuestion :: "AppState \<Rightarrow> AppState \<Rightarrow> Word list" where
  "newQuestion s s' =
     (if (currentWord s = None \<or> feedback s \<noteq> None) \<and> feedback s' = None
      then (case currentWord s' of None \<Rightarrow> [] | Some w \<Rightarrow> [w])
      else [])"

fun askedWords :: "(string \<Rightarrow> int option) \<Rightarrow> AppState \<Rightarrow> Event list \<Rightarrow> Word list" where
  "askedWords parseInt s [] = []"
| "askedWords parseInt s (ev # evs) =
     newQuestion s (step parseInt s ev) @ askedWords parseInt (step parseInt s ev) evs"

fun startsSession :: "Event \<Rightarrow> bool" where
  "startsSession (StartSession type dr) = True"
| "startsSession (HandleAnswer answer) = False"
| "startsSession (ProceedNext dr) = False"

section \<open>Concrete data used to evaluate the engine\<close>

definition mkWord :: "string \<Rightarrow> string \<Rightarrow> string \<Rightarrow> int \<Rightarrow> Word" where
  "mkWord i e j wc = \<lparr>id_word = i, english = e, japanese = j, wrongCount = wc, correctTotal = 0\<rparr>"

definition pool5 :: "Word list" where
  "pool5 = [mkWord ''1'' ''dog'' ''inu'' 0, mkWord ''2'' ''hound'' ''ken'' 2,
            mkWord ''3'' ''cat'' ''neko'' 2, mkWord ''4'' ''bird'' ''tori'' 1,
            mkWord ''5'' ''fish'' ''sakana'' 0]"

definition keepOrder :: Draws where
  "keepOrder = \<lparr>pick = 0, shuffleWrong = (\<lambda>xs. xs), shuffleOptions = (\<lambda>xs. xs)\<rparr>"

definition reverseOrder :: Draws where
  "reverseOrder = \<lparr>pick = 1, shuffleWrong = rev, shuffleOptions = rev\<rparr>"

definition allIds :: "string \<Rightarrow> int option" where
  "allIds i = (if i = ''1'' then Some 1 else if i = ''2'' then Some 2 else if i = ''3'' then Some 3
               else if i = ''4'' then Some 4 else if i = ''5'' then Some 5 else None)"

definition lobby :: AppState where
  "lobby = \<lparr>allWords = pool5, currentWord = None, options = [], feedback = None,
            sessionType = Normal, mode = EnToJa,
            range_conf = \<lparr>range_start = 1, range_end = 100\<rparr>, sessionLimit = 3,
            solvedCount = 0, correctSession = 0, isFinished = False, usedWordIds = [],
            showOptions = False, vocabData = None\<rparr>"

definition asking :: AppState where
  "asking = lobby\<lparr>currentWord := Some (mkWord ''2'' ''hound'' ''ken'' 2), usedWordIds := [''2'']\<rparr>"

definition answered :: AppState where
  "answered = asking\<lparr>feedback := Some Wrong\<rparr>"

definition lastQuestion :: AppState where
  "lastQuestion = answered\<lparr>solvedCount := 2\<rparr>"

definition poolDup :: "Word list" where
  "poolDup = [mkWord ''1'' ''dog'' ''inu'' 0, mkWord ''2'' ''big'' ''ookii'' 0,
              mkWord ''3'' ''large'' ''ookii'' 0, mkWord ''4'' ''cat'' ''neko'' 0,
              mkWord ''5'' ''bird'' ''tori'' 0]"

definition lobbyDup :: AppState where
  "lobbyDup = lobby\<lparr>allWords := poolDup\<rparr>"

definition poolSmall :: "Word list" where
  "poolSmall = [mkWord ''1'' ''dog'' ''inu'' 0, mkWord ''2'' ''cat'' ''neko'' 0]"

definition lobbySmall :: AppState where
  "lobbySmall = lobby\<lparr>allWords := poolSmall\<rparr>"

section \<open>Scoring an answer\<close>

lemma length_handleAnswer: "length (allWords (handleAnswer answer s)) = length (allWords s)"
  by (simp add: handleAnswer_def Let_def split: option.splits)

lemma allWords_handleAnswer:
  assumes "currentWord s = Some cw" "feedback s = None" "\<not> isFinished s"
  shows "allWords (handleAnswer answer s) =
           map (updatedWord (id_word cw) (answer = answerTerm (mode s) cw)) (allWords s)"
  using assms by (simp add: handleAnswer_def Let_def)

text \<open>
  C1. When \<open>handleAnswer\<close> accepts an answer (there is a current word, no feedback yet,
  the session is not finished), every pool entry carrying the current word's id gets
  its counters from the answer: if the submitted string equals the term of the current
  word in the answer direction, \<open>wrongCount\<close> becomes \<open>max 0 (wrongCount - 1)\<close> and
  \<open>correctTotal\<close> becomes 1; otherwise \<open>wrongCount\<close> becomes \<open>wrongCount + 1\<close> and
  \<open>correctTotal\<close> becomes 0.
\<close>

theorem handleAnswer_counters:
  assumes "currentWord s = Some cw" and "feedback s = None" and "\<not> isFinished s"
    and "i < length (allWords s)" and "id_word (allWords s ! i) = id_word cw"
  shows "(answer = answerTerm (mode s) cw \<longrightarrow>
            wrongCount (allWords (handleAnswer answer s) ! i) = max 0 (wrongCount (allWords s ! i) - 1)
          \<and> correctTotal (allWords (handleAnswer answer s) ! i) = 1)
       \<and> (answer \<noteq> answerTerm (mode s) cw \<longrightarrow>
            wrongCount (allWords (handleAnswer answer s) ! i) = wrongCount (allWords s ! i) + 1
          \<and> correctTotal (allWords (handleAnswer answer s) ! i) = 0)"
  using assms by (simp add: allWords_handleAnswer updatedWord_def)

lemma asking_facts:
  "currentWord asking = Some (mkWord ''2'' ''hound'' ''ken'' 2)" "feedback asking = None"
  "\<not> isFinished asking" "mode asking = EnToJa" "allWords asking = pool5"
  by (simp_all add: asking_def lobby_def)

theorem handleAnswer_counters_witness:
  "wrongCount (allWords (handleAnswer ''ken'' asking) ! 1) = 1
   \<and> correctTotal (allWords (handleAnswer ''ken'' asking) ! 1) = 1
   \<and> wrongCount (allWords (handleAnswer ''neko'' asking) ! 1) = 3
   \<and> correctTotal (allWords (handleAnswer ''neko'' asking) ! 1) = 0"
  using handleAnswer_counters [of asking "mkWord ''2'' ''hound'' ''ken'' 2" 1 "''ken''"]
    handleAnswer_counters [of asking "mkWord ''2'' ''hound'' ''ken'' 2" 1 "''neko''"]
  by (simp add: asking_facts pool5_def mkWord_def answerTerm_def)

section \<open>The pool update touches the answered word only\<close>

lemma updatedWord_keeps:
  "id_word (updatedWord c b w) = id_word w"
  "english (updatedWord c b w) = english w"
  "japanese (updatedWord c b w) = japanese w"
  by (simp_all add: updatedWord_def)

lemma updatedWord_other: "id_word w \<noteq> c \<Longrightarrow> updatedWord c b w = w"
  by (simp add: updatedWord_def)

lemma handleAnswer_nth:
  assumes "i < length (allWords s)"
  shows "id_word (allWords (handleAnswer answer s) ! i) = id_word (allWords s ! i)
       \<and> english (allWords (handleAnswer answer s) ! i) = english (allWords s ! i)
       \<and> japanese (allWords (handleAnswer answer s) ! i) = japanese (allWords s ! i)"
  using assms by (simp add: handleAnswer_def Let_def updatedWord_keeps split: option.splits)

lemma handleAnswer_nth_other:
  assumes "i < length (allWords s)" "currentWord s = Some cw"
    "id_word (allWords s ! i) \<noteq> id_word cw"
  shows "allWords (handleAnswer answer s) ! i = allWords s ! i"
  using assms by (simp add: handleAnswer_def Let_def updatedWord_other)

text \<open>
  C9. The pool that \<open>handleAnswer\<close> stores has the length of the old one; at every
  position the id and both terms are the old ones, so the order is kept; and an entry
  whose id differs from the id of the answered word is the old entry, counters
  included.
\<close>

theorem handleAnswer_frame:
  "length (allWords (handleAnswer answer s)) = length (allWords s)
   \<and> (\<forall>i < length (allWords s).
         id_word (allWords (handleAnswer answer s) ! i) = id_word (allWords s ! i)
       \<and> english (allWords (handleAnswer answer s) ! i) = english (allWords s ! i)
       \<and> japanese (allWords (handleAnswer answer s) ! i) = japanese (allWords s ! i)
       \<and> (\<forall>cw. currentWord s = Some cw \<longrightarrow> id_word (allWords s ! i) \<noteq> id_word cw
              \<longrightarrow> allWords (handleAnswer answer s) ! i = allWords s ! i))"
  using length_handleAnswer handleAnswer_nth handleAnswer_nth_other by blast

theorem handleAnswer_frame_witness:
  "length (allWords (handleAnswer ''neko'' asking)) = 5
   \<and> allWords (handleAnswer ''neko'' asking) ! 2 = mkWord ''3'' ''cat'' ''neko'' 2
   \<and> english (allWords (handleAnswer ''neko'' asking) ! 1) = ''hound''"
proof -
  have l: "length (allWords asking) = 5" and c: "allWords asking ! 2 = mkWord ''3'' ''cat'' ''neko'' 2"
    and h: "allWords asking ! 1 = mkWord ''2'' ''hound'' ''ken'' 2"
    by (simp_all add: asking_facts pool5_def)
  have d: "id_word (allWords asking ! 2) \<noteq> id_word (mkWord ''2'' ''hound'' ''ken'' 2)"
    by (simp add: c mkWord_def)
  note f = handleAnswer_frame [of "''neko''" asking]
  from f l have "length (allWords (handleAnswer ''neko'' asking)) = 5" by simp
  moreover from f l c d asking_facts(1)
  have "allWords (handleAnswer ''neko'' asking) ! 2 = mkWord ''3'' ''cat'' ''neko'' 2" by simp
  moreover from f l h
  have "english (allWords (handleAnswer ''neko'' asking) ! 1) = ''hound''"
    by (simp add: mkWord_def)
  ultimately show ?thesis by simp
qed

section \<open>Handlers called in a state that does not accept them\<close>

text \<open>
  C7. \<open>handleAnswer\<close> returns the state it was given when there is no current word,
  when feedback is already set, or when the session is finished; \<open>proceedNext\<close> does
  so when no feedback is set, when the session is finished, or when there is no
  current word. Both are total functions of the state: no branch of either raises.
\<close>

theorem invalid_state_noop:
  "(currentWord s = None \<or> feedback s \<noteq> None \<or> isFinished s \<longrightarrow> handleAnswer answer s = s)
   \<and> (feedback s = None \<or> isFinished s \<or> currentWord s = None
        \<longrightarrow> proceedNext parseInt dr s = s)"
  by (auto simp: handleAnswer_def proceedNext_def split: option.splits)

theorem invalid_state_noop_witness:
  "handleAnswer ''ken'' answered = answered \<and> handleAnswer ''ken'' lobby = lobby
   \<and> proceedNext allIds keepOrder asking = asking \<and> proceedNext allIds keepOrder lobby = lobby"
proof -
  have "feedback answered \<noteq> None" "currentWord lobby = None" "feedback lobby = None"
    by (simp_all add: answered_def lobby_def)
  with asking_facts(2) show ?thesis
    using invalid_state_noop [of answered "''ken''"] invalid_state_noop [of lobby "''ken''" allIds keepOrder]
      invalid_state_noop [of asking "''ken''" allIds keepOrder]
    by simp
qed

section \<open>Selection of the next word\<close>

lemma mset_place: "mset (place cmp x ys) = add_mset x (mset ys)"
  by (induction ys) simp_all

lemma mset_sort_js: "mset (sort_js cmp xs) = mset xs"
  by (induction xs) (simp_all add: mset_place)

lemma set_sort_js: "set (sort_js cmp xs) = set xs"
  using mset_sort_js [of cmp xs] by (metis set_mset_mset)

lemma sort_js_Nil: "sort_js cmp xs = [] \<longleftrightarrow> xs = []"
  using mset_sort_js [of cmp xs] by (metis mset_zero_iff)

lemma hd_place: "hd (place cmp x ys) = (if ys = [] \<or> cmp x (hd ys) \<le> 0 then x else hd ys)"
  by (cases ys) simp_all

text \<open>Sorted by descending key, the head is the first entry that carries the greatest key.\<close>

lemma hd_sort_js_descending:
  fixes f :: "'a \<Rightarrow> int"
  assumes "xs \<noteq> []"
  shows "\<exists>i < length xs. hd (sort_js (\<lambda>a b. f b - f a) xs) = xs ! i
           \<and> (\<forall>j < length xs. f (xs ! j) \<le> f (xs ! i))
           \<and> (\<forall>j < i. f (xs ! j) < f (xs ! i))"
  using assms
proof (induction xs)
  case Nil
  then show ?case by simp
next
  case (Cons x xs)
  let ?srt = "sort_js (\<lambda>a b. f b - f a)"
  show ?case
  proof (cases "xs = []")
    case True
    then show ?thesis by simp
  next
    case False
    with Cons.IH obtain i where i: "i < length xs" "hd (?srt xs) = xs ! i"
      and top: "\<forall>j < length xs. f (xs ! j) \<le> f (xs ! i)"
      and first: "\<forall>j < i. f (xs ! j) < f (xs ! i)"
      by blast
    from False have ne: "?srt xs \<noteq> []" by (simp add: sort_js_Nil)
    show ?thesis
    proof (cases "f (xs ! i) \<le> f x")
      case True
      with ne i have "hd (?srt (x # xs)) = (x # xs) ! 0" by (simp add: hd_place)
      moreover from True top have "\<forall>j < length (x # xs). f ((x # xs) ! j) \<le> f ((x # xs) ! 0)"
        by (auto simp: nth_Cons split: nat.splits)
      ultimately show ?thesis by (intro exI [of _ 0]) simp
    next
      case False
      with ne i have "hd (?srt (x # xs)) = (x # xs) ! Suc i" by (simp add: hd_place)
      moreover from False top
      have "\<forall>j < length (x # xs). f ((x # xs) ! j) \<le> f ((x # xs) ! Suc i)"
        by (auto simp: nth_Cons split: nat.splits)
      moreover from False first have "\<forall>j < Suc i. f ((x # xs) ! j) < f ((x # xs) ! Suc i)"
        by (auto simp: nth_Cons split: nat.splits)
      ultimately show ?thesis using i(1) by (intro exI [of _ "Suc i"]) simp
    qed
  qed
qed

lemma pickNextWord_training_hd:
  assumes "filter (\<lambda>w. id_word w \<notin> set excludeIds) fw \<noteq> []"
  shows "pickNextWord fw excludeIds Training d =
           Some (hd (sort_js (\<lambda>a b. wrongCount b - wrongCount a)
                      (filter (\<lambda>w. id_word w \<notin> set excludeIds) fw)))"
proof -
  let ?av = "filter (\<lambda>w. id_word w \<notin> set excludeIds) fw"
  from assms have "sort_js (\<lambda>a b. wrongCount b - wrongCount a) ?av \<noteq> []"
    by (simp add: sort_js_Nil)
  with assms show ?thesis
    by (simp add: pickNextWord_def Let_def split: list.splits)
qed

text \<open>
  C2. When some word is available (in range and not excluded), \<open>pickNextWord\<close> with
  type \<open>training\<close> returns an available word whose \<open>wrongCount\<close> no available word
  exceeds and which every available word in front of it falls short of: the first
  word of greatest \<open>wrongCount\<close> in pool order. The result does not depend on the
  random draw.
\<close>

theorem pickNextWord_training:
  assumes "available = filter (\<lambda>w. id_word w \<notin> set excludeIds) fw" and "available \<noteq> []"
  shows "\<exists>i < length available.
           pickNextWord fw excludeIds Training d = Some (available ! i)
         \<and> (\<forall>j < length available. wrongCount (available ! j) \<le> wrongCount (available ! i))
         \<and> (\<forall>j < i. wrongCount (available ! j) < wrongCount (available ! i))
         \<and> pickNextWord fw excludeIds Training d' = pickNextWord fw excludeIds Training d"
proof -
  from assms have ne: "filter (\<lambda>w. id_word w \<notin> set excludeIds) fw \<noteq> []" by simp
  from hd_sort_js_descending [OF assms(2), of wrongCount]
  obtain i where "i < length available"
    "hd (sort_js (\<lambda>a b. wrongCount b - wrongCount a) available) = available ! i"
    "\<forall>j < length available. wrongCount (available ! j) \<le> wrongCount (available ! i)"
    "\<forall>j < i. wrongCount (available ! j) < wrongCount (available ! i)"
    by blast
  then show ?thesis
    using pickNextWord_training_hd [OF ne] assms(1) by auto
qed

theorem pickNextWord_training_witness:
  "pickNextWord pool5 [''3''] Training 0 = Some (mkWord ''2'' ''hound'' ''ken'' 2)
   \<and> pickNextWord pool5 [''3''] Training 4 = pickNextWord pool5 [''3''] Training 0"
proof -
  define available where "available = filter (\<lambda>w. id_word w \<notin> set [''3'']) pool5"
  have av: "available = [mkWord ''1'' ''dog'' ''inu'' 0, mkWord ''2'' ''hound'' ''ken'' 2,
      mkWord ''4'' ''bird'' ''tori'' 1, mkWord ''5'' ''fish'' ''sakana'' 0]"
    by (simp add: available_def pool5_def mkWord_def)
  then have ne: "available \<noteq> []" by simp
  from pickNextWord_training [OF available_def ne, of 0 4]
  obtain i where i: "i < length available"
    and p: "pickNextWord pool5 [''3''] Training 0 = Some (available ! i)"
    and top: "\<forall>j < length available. wrongCount (available ! j) \<le> wrongCount (available ! i)"
    and first: "\<forall>j < i. wrongCount (available ! j) < wrongCount (available ! i)"
    and same: "pickNextWord pool5 [''3''] Training 4 = pickNextWord pool5 [''3''] Training 0"
    by blast
  have len: "length available = 4" by (simp add: av)
  with i have "i = 0 \<or> i = 1 \<or> i = 2 \<or> i = 3" by arith
  moreover from top [rule_format, of 1] len
  have "wrongCount (available ! 1) \<le> wrongCount (available ! i)" by simp
  ultimately have "i = 1" by (auto simp: av mkWord_def)
  with p same av show ?thesis by simp
qed

section \<open>No word is asked twice in a session\<close>

lemma pickNextWord_Some:
  assumes "pickNextWord fw excludeIds type d = Some w"
  shows "w \<in> set fw \<and> id_word w \<notin> set excludeIds"
proof -
  let ?av = "filter (\<lambda>w. id_word w \<notin> set excludeIds) fw"
  from assms have ne: "?av \<noteq> []"
    by (auto simp: pickNextWord_def Let_def split: if_splits)
  have "w \<in> set ?av"
  proof (cases "type = Training")
    case True
    with assms ne have "w \<in> set (sort_js (\<lambda>a b. wrongCount b - wrongCount a) ?av)"
      by (auto simp: pickNextWord_def Let_def split: list.splits)
    then show ?thesis by (simp only: set_sort_js)
  next
    case False
    with assms ne have "w = ?av ! (d mod length ?av)"
      by (simp add: pickNextWord_def Let_def)
    moreover from ne have "d mod length ?av < length ?av" by simp
    ultimately show ?thesis by (metis nth_mem)
  qed
  then show ?thesis by simp
qed

lemma usedWordIds_setupQuestion:
  "usedWordIds (setupQuestion dr w s) = usedWordIds s @ [id_word w]"
  by (simp add: setupQuestion_def)

lemma usedWordIds_handleAnswer: "usedWordIds (handleAnswer answer s) = usedWordIds s"
  by (simp add: handleAnswer_def Let_def split: option.splits)

lemma distinct_startSession: "distinct (usedWordIds (startSession parseInt dr type s))"
  by (simp add: startSession_def Let_def usedWordIds_setupQuestion split: option.splits)

lemma proceedNext_usedWordIds:
  "proceedNext parseInt dr s = s
   \<or> (currentWord (proceedNext parseInt dr s) = None
        \<and> usedWordIds (proceedNext parseInt dr s) = usedWordIds s)
   \<or> (\<exists>w. currentWord (proceedNext parseInt dr s) = Some w
          \<and> usedWordIds (proceedNext parseInt dr s) = usedWordIds s @ [id_word w]
          \<and> id_word w \<notin> set (usedWordIds s))"
proof (cases "pickNextWord (filteredWords parseInt (range_conf s) (allWords s))
                (usedWordIds s) (sessionType s) (pick dr)")
  case None
  then show ?thesis by (simp add: proceedNext_def Let_def finish_def)
next
  case (Some w)
  then have "id_word w \<notin> set (usedWordIds s)" by (simp add: pickNextWord_Some)
  with Some show ?thesis
    by (simp add: proceedNext_def Let_def finish_def setupQuestion_def)
qed

lemma distinct_proceedNext:
  assumes "distinct (usedWordIds s)"
  shows "distinct (usedWordIds (proceedNext parseInt dr s))"
  using proceedNext_usedWordIds [of parseInt dr s] assms by auto

lemma distinct_step:
  assumes "distinct (usedWordIds s)"
  shows "distinct (usedWordIds (step parseInt s ev))"
  using assms
  by (cases ev) (simp_all add: distinct_startSession usedWordIds_handleAnswer distinct_proceedNext)

lemma distinct_run:
  assumes "distinct (usedWordIds s)"
  shows "distinct (usedWordIds (run parseInt s evs))"
  using assms unfolding run_def
  by (induction evs arbitrary: s) (simp_all add: distinct_step)

lemma newQuestion_handleAnswer: "newQuestion s (handleAnswer answer s) = []"
  by (auto simp: newQuestion_def handleAnswer_def Let_def split: option.splits)

lemma newQuestion_same: "newQuestion s s = []"
  by (auto simp: newQuestion_def split: option.splits)

lemma proceedNext_records:
  "usedWordIds (proceedNext parseInt dr s) =
     usedWordIds s @ map id_word (newQuestion s (proceedNext parseInt dr s))"
proof (cases "feedback s = None \<or> isFinished s \<or> currentWord s = None")
  case True
  then have "proceedNext parseInt dr s = s" by (simp add: proceedNext_def)
  then show ?thesis by (simp add: newQuestion_same)
next
  case False
  then show ?thesis
    by (auto simp: proceedNext_def Let_def finish_def setupQuestion_def newQuestion_def
        split: option.splits)
qed

lemma startSession_records:
  assumes "currentWord s = None \<or> feedback s \<noteq> None"
  shows "usedWordIds (startSession parseInt dr type s) =
           map id_word (newQuestion s (startSession parseInt dr type s))"
  using assms
  by (auto simp: startSession_def Let_def setupQuestion_def newQuestion_def split: option.splits)

lemma step_records:
  assumes "\<not> startsSession ev"
  shows "usedWordIds (step parseInt s ev) =
           usedWordIds s @ map id_word (newQuestion s (step parseInt s ev))"
  using assms
  by (cases ev) (simp_all add: usedWordIds_handleAnswer newQuestion_handleAnswer proceedNext_records)

lemma run_records:
  assumes "\<forall>ev \<in> set evs. \<not> startsSession ev"
  shows "usedWordIds (run parseInt s evs) = usedWordIds s @ map id_word (askedWords parseInt s evs)"
  using assms unfolding run_def
proof (induction evs arbitrary: s)
  case Nil
  then show ?case by simp
next
  case (Cons ev evs)
  from Cons.prems have "\<not> startsSession ev" "\<forall>ev \<in> set evs. \<not> startsSession ev" by simp_all
  with Cons.IH [of "step parseInt s ev"] step_records [of ev parseInt s] show ?case by simp
qed

lemma session_records:
  assumes "currentWord s = None \<or> feedback s \<noteq> None" and "\<forall>ev \<in> set evs. \<not> startsSession ev"
  shows "map id_word (askedWords parseInt s (StartSession type dr # evs)) =
           usedWordIds (run parseInt s (StartSession type dr # evs))"
proof -
  have "usedWordIds (run parseInt s (StartSession type dr # evs)) =
          usedWordIds (run parseInt (startSession parseInt dr type s) evs)"
    by (simp add: run_def)
  also have "\<dots> = usedWordIds (startSession parseInt dr type s)
                   @ map id_word (askedWords parseInt (startSession parseInt dr type s) evs)"
    by (rule run_records [OF assms(2)])
  also have "\<dots> = map id_word (askedWords parseInt s (StartSession type dr # evs))"
    by (simp add: startSession_records [OF assms(1)])
  finally show ?thesis by simp
qed

text \<open>
  C3. \<open>pickNextWord\<close> never returns a word whose id is among the excluded ids. After
  \<open>startSession\<close>, whatever events follow, \<open>usedWordIds\<close> holds no id twice.
  \<open>proceedNext\<close> does nothing, or clears the current word and leaves \<open>usedWordIds\<close>
  as it is, or sets a current word and appends its id, which was not in \<open>usedWordIds\<close>
  before. And in one session (\<open>startSession\<close> called when no question is open, then
  answers and advances) the ids of the words asked, in the order asked, are exactly
  \<open>usedWordIds\<close>; so they are pairwise different: no word is asked twice. This holds
  for both session types.
\<close>

theorem no_repeats_in_session:
  "(\<forall>w. pickNextWord fw excludeIds type d = Some w \<longrightarrow> id_word w \<notin> set excludeIds)
   \<and> distinct (usedWordIds (run parseInt (startSession parseInt dr type s) evs))
   \<and> (proceedNext parseInt dr' s' = s'
        \<or> (currentWord (proceedNext parseInt dr' s') = None
             \<and> usedWordIds (proceedNext parseInt dr' s') = usedWordIds s')
        \<or> (\<exists>w. currentWord (proceedNext parseInt dr' s') = Some w
               \<and> usedWordIds (proceedNext parseInt dr' s') = usedWordIds s' @ [id_word w]
               \<and> id_word w \<notin> set (usedWordIds s')))
   \<and> ((currentWord s = None \<or> feedback s \<noteq> None) \<and> (\<forall>ev \<in> set evs. \<not> startsSession ev)
        \<longrightarrow> map id_word (askedWords parseInt s (StartSession type dr # evs))
              = usedWordIds (run parseInt s (StartSession type dr # evs))
            \<and> distinct (map id_word (askedWords parseInt s (StartSession type dr # evs))))"
proof -
  have d: "distinct (usedWordIds (run parseInt (startSession parseInt dr type s) evs))"
    by (rule distinct_run [OF distinct_startSession])
  have r: "run parseInt s (StartSession type dr # evs) = run parseInt (startSession parseInt dr type s) evs"
    by (simp add: run_def)
  have "(currentWord s = None \<or> feedback s \<noteq> None) \<and> (\<forall>ev \<in> set evs. \<not> startsSession ev)
        \<longrightarrow> map id_word (askedWords parseInt s (StartSession type dr # evs))
              = usedWordIds (run parseInt s (StartSession type dr # evs))
            \<and> distinct (map id_word (askedWords parseInt s (StartSession type dr # evs)))"
    using session_records [of s evs parseInt type dr] d r by metis
  with d pickNextWord_Some [of fw excludeIds type d] proceedNext_usedWordIds [of parseInt dr' s']
  show ?thesis by blast
qed

theorem no_repeats_in_session_witness:
  "pickNextWord pool5 [''2'', ''4''] Normal 1 = Some (mkWord ''3'' ''cat'' ''neko'' 2)
   \<and> id_word (mkWord ''3'' ''cat'' ''neko'' 2) \<notin> set [''2'', ''4'']
   \<and> distinct (usedWordIds (run allIds (startSession allIds keepOrder Normal lobby)
         [HandleAnswer ''ken'', ProceedNext reverseOrder]))
   \<and> usedWordIds (run allIds lobby
         [StartSession Normal keepOrder, HandleAnswer ''ken'', ProceedNext reverseOrder]) = [''1'', ''3'']
   \<and> map id_word (askedWords allIds lobby
         [StartSession Normal keepOrder, HandleAnswer ''ken'', ProceedNext reverseOrder]) = [''1'', ''3'']
   \<and> distinct (map id_word (askedWords allIds lobby
         [StartSession Normal keepOrder, HandleAnswer ''ken'', ProceedNext reverseOrder]))"
proof -
  let ?evs = "[HandleAnswer ''ken'', ProceedNext reverseOrder]"
  define s1 where "s1 = startSession allIds keepOrder Normal lobby"
  define s2 where "s2 = handleAnswer ''ken'' s1"
  have p: "pickNextWord pool5 [''2'', ''4''] Normal 1 = Some (mkWord ''3'' ''cat'' ''neko'' 2)"
    by (simp add: pickNextWord_def pool5_def mkWord_def)
  have h: "currentWord lobby = None \<or> feedback lobby \<noteq> None" by (simp add: lobby_def)
  have n: "\<forall>ev \<in> set ?evs. \<not> startsSession ev" by simp
  have f: "filteredWords allIds \<lparr>range_start = 1, range_end = 100\<rparr> pool5 = pool5"
    by (simp add: filteredWords_def allIds_def pool5_def mkWord_def)
  have first: "pickNextWord pool5 [] Normal 0 = Some (mkWord ''1'' ''dog'' ''inu'' 0)"
    by (simp add: pickNextWord_def pool5_def mkWord_def)
  have e1: "s1 = setupQuestion keepOrder (mkWord ''1'' ''dog'' ''inu'' 0) lobby"
    unfolding s1_def startSession_def
    by (simp add: lobby_def f first keepOrder_def)
  then have a1: "currentWord s1 = Some (mkWord ''1'' ''dog'' ''inu'' 0)" "feedback s1 = None"
    "\<not> isFinished s1" "usedWordIds s1 = [''1'']" "solvedCount s1 = 0" "sessionLimit s1 = 3"
    "sessionType s1 = Normal" "range_conf s1 = \<lparr>range_start = 1, range_end = 100\<rparr>"
    "map id_word (allWords s1) = map id_word pool5"
    by (simp_all add: setupQuestion_def lobby_def mkWord_def)
  have a2: "currentWord s2 \<noteq> None" "feedback s2 \<noteq> None"
    "\<not> isFinished s2" "usedWordIds s2 = [''1'']" "solvedCount s2 = 0" "sessionLimit s2 = 3"
    "sessionType s2 = Normal" "range_conf s2 = \<lparr>range_start = 1, range_end = 100\<rparr>"
    unfolding s2_def by (simp_all add: handleAnswer_def Let_def a1)
  have w2: "allWords s2 = map (updatedWord ''1'' False) pool5"
    unfolding s2_def
    by (simp add: handleAnswer_def Let_def a1(1-3) e1 setupQuestion_def lobby_def answerTerm_def mkWord_def)
  have f2: "filteredWords allIds (range_conf s2) (allWords s2) = map (updatedWord ''1'' False) pool5"
    by (simp add: a2 w2 filteredWords_def allIds_def pool5_def mkWord_def updatedWord_def)
  have p2: "pickNextWord (map (updatedWord ''1'' False) pool5) [''1''] Normal 1
              = Some (mkWord ''3'' ''cat'' ''neko'' 2)"
    by (simp add: pickNextWord_def pool5_def mkWord_def updatedWord_def)
  have k: "pick reverseOrder = 1" by (simp add: reverseOrder_def)
  have pk: "pickNextWord (filteredWords allIds (range_conf s2) (allWords s2))
              (usedWordIds s2) (sessionType s2) (pick reverseOrder)
            = Some (mkWord ''3'' ''cat'' ''neko'' 2)"
    unfolding f2 a2(4) a2(7) k by (rule p2)
  have "usedWordIds (proceedNext allIds reverseOrder s2) = [''1'', ''3'']"
    unfolding proceedNext_def Let_def pk
    using a2 by (simp add: setupQuestion_def mkWord_def)
  then have u: "usedWordIds (run allIds lobby (StartSession Normal keepOrder # ?evs)) = [''1'', ''3'']"
    by (simp add: run_def s1_def s2_def)
  note t = no_repeats_in_session [where fw = pool5 and excludeIds = "[''2'', ''4'']"
      and type = Normal and d = 1 and parseInt = allIds and dr = keepOrder and s = lobby
      and evs = ?evs]
  from t p have "id_word (mkWord ''3'' ''cat'' ''neko'' 2) \<notin> set [''2'', ''4'']" by blast
  moreover from t
  have "distinct (usedWordIds (run allIds (startSession allIds keepOrder Normal lobby) ?evs))"
    by blast
  moreover from t h n
  have "map id_word (askedWords allIds lobby (StartSession Normal keepOrder # ?evs))
          = usedWordIds (run allIds lobby (StartSession Normal keepOrder # ?evs))
        \<and> distinct (map id_word (askedWords allIds lobby (StartSession Normal keepOrder # ?evs)))"
    by blast
  ultimately show ?thesis using p u by simp
qed

section \<open>The mistake counter stays non-negative\<close>

lemma updatedWord_nonneg: "0 \<le> wrongCount w \<Longrightarrow> 0 \<le> wrongCount (updatedWord c b w)"
  by (simp add: updatedWord_def)

lemma nonneg_handleAnswer:
  assumes "\<forall>w \<in> set (allWords s). 0 \<le> wrongCount w"
  shows "\<forall>w \<in> set (allWords (handleAnswer answer s)). 0 \<le> wrongCount w"
  using assms
  by (auto simp: handleAnswer_def Let_def updatedWord_nonneg split: option.splits)

lemma allWords_setupQuestion: "allWords (setupQuestion dr w s) = allWords s"
  by (simp add: setupQuestion_def)

lemma allWords_startSession: "allWords (startSession parseInt dr type s) = allWords s"
  by (simp add: startSession_def Let_def allWords_setupQuestion split: option.splits)

lemma allWords_proceedNext: "allWords (proceedNext parseInt dr s) = allWords s"
  by (simp add: proceedNext_def Let_def finish_def allWords_setupQuestion split: option.splits)

lemma nonneg_step:
  assumes "\<forall>w \<in> set (allWords s). 0 \<le> wrongCount w"
  shows "\<forall>w \<in> set (allWords (step parseInt s ev)). 0 \<le> wrongCount w"
proof (cases ev)
  case (HandleAnswer answer)
  with nonneg_handleAnswer [OF assms] show ?thesis by simp
qed (simp_all add: assms allWords_startSession allWords_proceedNext)

lemma nonneg_run:
  assumes "\<forall>w \<in> set (allWords s). 0 \<le> wrongCount w"
  shows "\<forall>w \<in> set (allWords (run parseInt s evs)). 0 \<le> wrongCount w"
  using assms unfolding run_def
proof (induction evs arbitrary: s)
  case Nil
  then show ?case by simp
next
  case (Cons ev evs)
  from Cons.IH [OF nonneg_step [OF Cons.prems]] show ?case by simp
qed

text \<open>
  C4. If no word of the pool has a negative \<open>wrongCount\<close>, then after any finite
  sequence of events (answers right or wrong, advancing, starting sessions) no word of
  the pool has a negative \<open>wrongCount\<close>; and one scoring step applied to a word with
  \<open>wrongCount \<ge> 0\<close> yields \<open>wrongCount \<ge> 0\<close>, whether the answer was right or wrong.
\<close>

theorem wrongCount_nonneg:
  assumes "\<forall>w \<in> set (allWords s). 0 \<le> wrongCount w"
  shows "(\<forall>w \<in> set (allWords (run parseInt s evs)). 0 \<le> wrongCount w)
       \<and> (\<forall>w \<in> set (allWords s). \<forall>c b. 0 \<le> wrongCount (updatedWord c b w))"
  using nonneg_run [OF assms] assms updatedWord_nonneg by blast

theorem wrongCount_nonneg_witness:
  "wrongCount (allWords asking ! 1) = 2
   \<and> 0 \<le> wrongCount (allWords (run allIds asking
          [HandleAnswer ''ken'', ProceedNext keepOrder, HandleAnswer ''inu'', HandleAnswer ''tori'']) ! 1)
   \<and> 0 \<le> wrongCount (updatedWord ''2'' True (allWords asking ! 1))"
proof -
  let ?evs = "[HandleAnswer ''ken'', ProceedNext keepOrder, HandleAnswer ''inu'', HandleAnswer ''tori'']"
  have h: "\<forall>w \<in> set (allWords asking). 0 \<le> wrongCount w"
    by (simp add: asking_facts pool5_def mkWord_def)
  have "length (allWords (run allIds asking ?evs)) = length (allWords asking)"
    by (simp add: run_def length_handleAnswer allWords_proceedNext)
  then have "allWords (run allIds asking ?evs) ! 1 \<in> set (allWords (run allIds asking ?evs))"
    by (simp add: asking_facts pool5_def)
  moreover have "allWords asking ! 1 \<in> set (allWords asking)"
    by (simp add: asking_facts pool5_def)
  moreover have "wrongCount (allWords asking ! 1) = 2"
    by (simp add: asking_facts pool5_def mkWord_def)
  ultimately show ?thesis using wrongCount_nonneg [OF h, of allIds ?evs] by blast
qed

section \<open>Advancing to the next question\<close>

text \<open>
  C6. Called with feedback set, the session not finished and a current word,
  \<open>proceedNext\<close> adds exactly 1 to \<open>solvedCount\<close>. If the new count reaches
  \<open>sessionLimit\<close>, or \<open>pickNextWord\<close> on the used ids finds no word, the session is
  finished and the current word and the feedback are cleared. Otherwise the state is
  the one \<open>setupQuestion\<close> builds for the picked word: it is the current word, no
  feedback is set, and the session is not finished.
\<close>

theorem proceedNext_advance:
  assumes "feedback s \<noteq> None" and "\<not> isFinished s" and "currentWord s \<noteq> None"
    and "s' = proceedNext parseInt dr s"
    and "nextWord = pickNextWord (filteredWords parseInt (range_conf s) (allWords s))
                      (usedWordIds s) (sessionType s) (pick dr)"
  shows "solvedCount s' = solvedCount s + 1
       \<and> (if solvedCount s + 1 \<ge> sessionLimit s \<or> nextWord = None
          then isFinished s' \<and> currentWord s' = None \<and> feedback s' = None
          else \<exists>w. nextWord = Some w
                 \<and> s' = setupQuestion dr w (s\<lparr>solvedCount := solvedCount s + 1\<rparr>)
                 \<and> \<not> isFinished s' \<and> currentWord s' = Some w \<and> feedback s' = None)"
proof -
  let ?s1 = "s\<lparr>solvedCount := solvedCount s + 1\<rparr>"
  have guard: "(feedback s = None \<or> isFinished s \<or> currentWord s = None) = False"
    using assms(1-3) by simp
  have eq: "s' = (if sessionLimit s \<le> solvedCount s + 1 then finish ?s1
                  else case nextWord of Some w \<Rightarrow> setupQuestion dr w ?s1 | None \<Rightarrow> finish ?s1)"
    unfolding assms(4,5) proceedNext_def Let_def guard by (simp only: if_False)
  show ?thesis
  proof (cases "sessionLimit s \<le> solvedCount s + 1")
    case True
    then show ?thesis by (simp add: eq finish_def)
  next
    case False
    show ?thesis
    proof (cases nextWord)
      case None
      with False show ?thesis by (simp add: eq finish_def)
    next
      case (Some w)
      with False assms(2) show ?thesis by (simp add: eq setupQuestion_def)
    qed
  qed
qed

theorem proceedNext_advance_witness:
  "solvedCount (proceedNext allIds keepOrder answered) = 1
   \<and> currentWord (proceedNext allIds keepOrder answered) = Some (mkWord ''1'' ''dog'' ''inu'' 0)
   \<and> \<not> isFinished (proceedNext allIds keepOrder answered)
   \<and> solvedCount (proceedNext allIds keepOrder lastQuestion) = 3
   \<and> isFinished (proceedNext allIds keepOrder lastQuestion)
   \<and> currentWord (proceedNext allIds keepOrder lastQuestion) = None"
proof -
  have a: "feedback answered \<noteq> None" "\<not> isFinished answered" "currentWord answered \<noteq> None"
    "solvedCount answered = 0" "sessionLimit answered = 3"
    by (simp_all add: answered_def asking_def lobby_def)
  have l: "feedback lastQuestion \<noteq> None" "\<not> isFinished lastQuestion"
    "currentWord lastQuestion \<noteq> None" "solvedCount lastQuestion = 2" "sessionLimit lastQuestion = 3"
    by (simp_all add: lastQuestion_def answered_def asking_def lobby_def)
  have p: "pickNextWord (filteredWords allIds (range_conf answered) (allWords answered))
             (usedWordIds answered) (sessionType answered) (pick keepOrder)
           = Some (mkWord ''1'' ''dog'' ''inu'' 0)"
    by (simp add: pickNextWord_def filteredWords_def allIds_def answered_def asking_def lobby_def
        pool5_def mkWord_def keepOrder_def)
  from proceedNext_advance [OF a(1-3) refl refl, of allIds keepOrder] p a(4,5)
  have "solvedCount (proceedNext allIds keepOrder answered) = 1
      \<and> currentWord (proceedNext allIds keepOrder answered) = Some (mkWord ''1'' ''dog'' ''inu'' 0)
      \<and> \<not> isFinished (proceedNext allIds keepOrder answered)"
    by (simp add: setupQuestion_def a(2))
  moreover from proceedNext_advance [OF l(1-3) refl refl, of allIds keepOrder] l(4,5)
  have "solvedCount (proceedNext allIds keepOrder lastQuestion) = 3
      \<and> isFinished (proceedNext allIds keepOrder lastQuestion)
      \<and> currentWord (proceedNext allIds keepOrder lastQuestion) = None"
    by simp
  ultimately show ?thesis by simp
qed

section \<open>The options of a question\<close>

lemma options_setupQuestion:
  "options (setupQuestion dr word s) = newOptions dr (mode s) (allWords s) word"
  by (simp add: setupQuestion_def)

lemma length_wrongAnswers:
  "length (wrongAnswers m ws c) = length (filter (\<lambda>w. answerTerm m w \<noteq> c) ws)"
  by (simp add: wrongAnswers_def)

lemma wrongAnswers_differ: "x \<in> set (wrongAnswers m ws c) \<Longrightarrow> x \<noteq> c"
  by (auto simp: wrongAnswers_def)

lemma mset_wrongAnswers: "mset (wrongAnswers m ws c) \<subseteq># mset (map (answerTerm m) ws)"
  by (simp add: wrongAnswers_def image_mset_subseteq_mono)

lemma mset_take: "mset (take n xs) \<subseteq># mset xs"
proof -
  have "mset xs = mset (take n xs) + mset (drop n xs)"
    by (metis append_take_drop_id mset_append)
  then show ?thesis by simp
qed

lemma mset_newOptions:
  assumes "rearranges (shuffleOptions dr)"
  shows "mset (newOptions dr m ws word) =
           add_mset (answerTerm m word) (mset (shuffledWrong dr m ws (answerTerm m word)))"
  using assms by (simp add: newOptions_def Let_def rearranges_def)

lemma length_shuffledWrong:
  assumes "rearranges (shuffleWrong dr)"
  shows "length (shuffledWrong dr m ws c) = min 3 (length (wrongAnswers m ws c))"
proof -
  from assms have "length (shuffleWrong dr (wrongAnswers m ws c)) = length (wrongAnswers m ws c)"
    unfolding rearranges_def by (metis mset_eq_length)
  then show ?thesis by (simp add: shuffledWrong_def min.commute)
qed

lemma mset_shuffledWrong:
  assumes "rearranges (shuffleWrong dr)"
  shows "mset (shuffledWrong dr m ws c) \<subseteq># mset (wrongAnswers m ws c)"
proof -
  have "mset (shuffledWrong dr m ws c) \<subseteq># mset (shuffleWrong dr (wrongAnswers m ws c))"
    unfolding shuffledWrong_def by (rule mset_take)
  with assms show ?thesis by (simp add: rearranges_def)
qed

lemma shuffledWrong_differ:
  assumes "rearranges (shuffleWrong dr)" "x \<in> set (shuffledWrong dr m ws c)"
  shows "x \<noteq> c"
proof -
  from mset_shuffledWrong [OF assms(1)] have "set (shuffledWrong dr m ws c) \<subseteq> set (wrongAnswers m ws c)"
    by (metis set_mset_mono set_mset_mset)
  with assms(2) show ?thesis by (auto dest: wrongAnswers_differ)
qed

lemma length_newOptions:
  assumes "rearranges (shuffleWrong dr)" "rearranges (shuffleOptions dr)"
  shows "length (newOptions dr m ws word) =
           min 3 (length (wrongAnswers m ws (answerTerm m word))) + 1"
proof -
  have "length (newOptions dr m ws word) = size (mset (newOptions dr m ws word))" by simp
  also have "\<dots> = length (shuffledWrong dr m ws (answerTerm m word)) + 1"
    by (simp add: mset_newOptions [OF assms(2)])
  finally show ?thesis by (simp add: length_shuffledWrong [OF assms(1)])
qed

lemma count_newOptions:
  assumes "rearranges (shuffleWrong dr)" "rearranges (shuffleOptions dr)"
  shows "count_list (newOptions dr m ws word) (answerTerm m word) = 1"
proof -
  let ?c = "answerTerm m word"
  have "?c \<notin> set (shuffledWrong dr m ws ?c)"
    using shuffledWrong_differ [OF assms(1)] by blast
  then have "count (mset (shuffledWrong dr m ws ?c)) ?c = 0"
    by (simp add: count_eq_zero_iff)
  then have "count (mset (newOptions dr m ws word)) ?c = 1"
    by (simp add: mset_newOptions [OF assms(2)])
  then show ?thesis by (simp add: count_mset)
qed

text \<open>
  C10. If both shuffles only rearrange, the options that \<open>setupQuestion\<close> stores
  contain the correct answer, and their number is 1 plus the lesser of 3 and the number
  of pool entries whose term differs from the correct answer: with fewer than three
  such entries the list is shorter, nothing is added to fill it.
\<close>

theorem setupQuestion_option_count:
  assumes "rearranges (shuffleWrong dr)" and "rearranges (shuffleOptions dr)"
  shows "answerTerm (mode s) word \<in> set (options (setupQuestion dr word s))
       \<and> length (options (setupQuestion dr word s)) =
           min 3 (length (filter (\<lambda>w. answerTerm (mode s) w \<noteq> answerTerm (mode s) word) (allWords s))) + 1"
proof -
  have "answerTerm (mode s) word \<in># mset (newOptions dr (mode s) (allWords s) word)"
    by (simp add: mset_newOptions [OF assms(2)])
  then have "answerTerm (mode s) word \<in> set (newOptions dr (mode s) (allWords s) word)"
    by simp
  with length_newOptions [OF assms, of "mode s" "allWords s" word] show ?thesis
    by (simp add: options_setupQuestion length_wrongAnswers)
qed

lemma rearranges_concrete:
  "rearranges (shuffleWrong keepOrder)" "rearranges (shuffleOptions keepOrder)"
  "rearranges (shuffleWrong reverseOrder)" "rearranges (shuffleOptions reverseOrder)"
  by (simp_all add: rearranges_def keepOrder_def reverseOrder_def)

theorem setupQuestion_option_count_witness:
  "rearranges (shuffleWrong reverseOrder) \<and> rearranges (shuffleOptions reverseOrder)
   \<and> ''inu'' \<in> set (options (setupQuestion reverseOrder (mkWord ''1'' ''dog'' ''inu'' 0) lobbySmall))
   \<and> length (options (setupQuestion reverseOrder (mkWord ''1'' ''dog'' ''inu'' 0) lobbySmall)) = 2"
proof -
  have m: "answerTerm (mode lobbySmall) (mkWord ''1'' ''dog'' ''inu'' 0) = ''inu''"
    by (simp add: lobbySmall_def lobby_def answerTerm_def mkWord_def)
  have n: "length (filter (\<lambda>w. answerTerm (mode lobbySmall) w \<noteq> ''inu'') (allWords lobbySmall)) = 1"
    by (simp add: lobbySmall_def lobby_def poolSmall_def answerTerm_def mkWord_def)
  from setupQuestion_option_count [OF rearranges_concrete(3,4),
      of lobbySmall "mkWord ''1'' ''dog'' ''inu'' 0"]
  show ?thesis by (simp add: m n rearranges_concrete)
qed

text \<open>
  C5, as the code has it. If both shuffles only rearrange and at least three pool
  entries have a term that differs from the correct answer, \<open>setupQuestion\<close> stores
  four options, exactly one of which equals the correct answer. The other three are
  terms of three different entries of the whole pool (of \<open>allWords\<close>, not of the
  range-filtered words), each different from the correct answer. They are pairwise
  different strings if the terms of the pool that differ from the correct answer are:
  the code draws entries, and two entries with one term can both be drawn.
\<close>

theorem setupQuestion_four_options:
  assumes "rearranges (shuffleWrong dr)" and "rearranges (shuffleOptions dr)"
    and "3 \<le> length (filter (\<lambda>w. answerTerm (mode s) w \<noteq> answerTerm (mode s) word) (allWords s))"
    and "c = answerTerm (mode s) word"
    and "distractors = shuffledWrong dr (mode s) (allWords s) c"
  shows "length (options (setupQuestion dr word s)) = 4
       \<and> count_list (options (setupQuestion dr word s)) c = 1
       \<and> mset (options (setupQuestion dr word s)) = add_mset c (mset distractors)
       \<and> length distractors = 3
       \<and> mset distractors \<subseteq># mset (map (answerTerm (mode s)) (allWords s))
       \<and> (\<forall>x \<in> set distractors. x \<noteq> c)
       \<and> (distinct (wrongAnswers (mode s) (allWords s) c) \<longrightarrow> distinct distractors)"
proof -
  let ?wrong = "wrongAnswers (mode s) (allWords s) c"
  from assms(3,4) have three: "3 \<le> length ?wrong" by (simp add: length_wrongAnswers)
  have len: "length (options (setupQuestion dr word s)) = 4"
    using length_newOptions [OF assms(1,2), of "mode s" "allWords s" word] three assms(4)
    by (simp add: options_setupQuestion)
  have cnt: "count_list (options (setupQuestion dr word s)) c = 1"
    using count_newOptions [OF assms(1,2)] assms(4) by (simp add: options_setupQuestion)
  have ms: "mset (options (setupQuestion dr word s)) = add_mset c (mset distractors)"
    using mset_newOptions [OF assms(2)] assms(4,5) by (simp add: options_setupQuestion)
  have len3: "length distractors = 3"
    using length_shuffledWrong [OF assms(1), of "mode s" "allWords s" c] three assms(5) by simp
  have sub: "mset distractors \<subseteq># mset (map (answerTerm (mode s)) (allWords s))"
    using mset_shuffledWrong [OF assms(1), of "mode s" "allWords s" c]
      mset_wrongAnswers [of "mode s" "allWords s" c] assms(5)
    by (metis subset_mset.order_trans)
  have diff: "\<forall>x \<in> set distractors. x \<noteq> c"
    using shuffledWrong_differ [OF assms(1)] assms(5) by blast
  have dist: "distinct ?wrong \<longrightarrow> distinct distractors"
  proof
    assume "distinct ?wrong"
    moreover from assms(1) have "mset (shuffleWrong dr ?wrong) = mset ?wrong"
      by (simp add: rearranges_def)
    ultimately have "distinct (shuffleWrong dr ?wrong)"
      by (metis mset_eq_imp_distinct_iff)
    then show "distinct distractors" by (simp add: assms(5) shuffledWrong_def)
  qed
  from len cnt ms len3 sub diff dist show ?thesis by blast
qed

theorem setupQuestion_four_options_witness:
  "rearranges (shuffleWrong reverseOrder) \<and> rearranges (shuffleOptions reverseOrder)
   \<and> length (options (setupQuestion reverseOrder (mkWord ''1'' ''dog'' ''inu'' 0) lobby)) = 4
   \<and> count_list (options (setupQuestion reverseOrder (mkWord ''1'' ''dog'' ''inu'' 0) lobby)) ''inu'' = 1
   \<and> distinct (shuffledWrong reverseOrder EnToJa pool5 ''inu'')"
proof -
  have m: "mode lobby = EnToJa" "allWords lobby = pool5"
    "answerTerm EnToJa (mkWord ''1'' ''dog'' ''inu'' 0) = ''inu''"
    by (simp_all add: lobby_def answerTerm_def mkWord_def)
  have w: "wrongAnswers EnToJa pool5 ''inu'' = [''ken'', ''neko'', ''tori'', ''sakana'']"
    by (simp add: wrongAnswers_def pool5_def answerTerm_def mkWord_def)
  have n: "3 \<le> length (filter (\<lambda>w. answerTerm (mode lobby) w \<noteq>
             answerTerm (mode lobby) (mkWord ''1'' ''dog'' ''inu'' 0)) (allWords lobby))"
    using w by (simp add: m flip: length_wrongAnswers)
  have d: "distinct (wrongAnswers EnToJa pool5 ''inu'')" by (simp add: w)
  from setupQuestion_four_options [OF rearranges_concrete(3,4) n refl refl] d
  show ?thesis by (simp add: m rearranges_concrete)
qed

text \<open>
  C5, as the claim states it, fails: in a pool where two entries share the Japanese
  term, three different terms differ from the correct answer, yet two of the three
  distractors are the same string.
\<close>

theorem setupQuestion_distractors_counterexample:
  "length (remdups (wrongAnswers EnToJa poolDup ''inu'')) = 3
   \<and> options (setupQuestion keepOrder (mkWord ''1'' ''dog'' ''inu'' 0) lobbyDup)
       = [''ookii'', ''ookii'', ''neko'', ''inu'']
   \<and> \<not> distinct (shuffledWrong keepOrder (mode lobbyDup) (allWords lobbyDup) ''inu'')"
  by (simp add: setupQuestion_def newOptions_def shuffledWrong_def wrongAnswers_def answerTerm_def
      lobbyDup_def lobby_def poolDup_def mkWord_def keepOrder_def)

section \<open>The accuracy shown when a session is finished\<close>








lemma roundEven_near: "\<bar>of_int (roundEven y) - y\<bar> \<le> 1 / 2"
proof -
  have "of_int \<lfloor>y\<rfloor> \<le> y" "y < of_int \<lfloor>y\<rfloor> + 1" by linarith+
  then show ?thesis by (auto simp: roundEven_def Let_def)
qed

lemma roundEven_eq:
  assumes "\<bar>y - of_int n\<bar> < 1 / 2"
  shows "roundEven y = n"
proof -
  from roundEven_near [of y] assms have "\<bar>(of_int (roundEven y) :: rat) - of_int n\<bar> < 1" by linarith
  then have "\<bar>(of_int (roundEven y - n) :: rat)\<bar> < of_int 1" by simp
  then have "\<bar>roundEven y - n\<bar> < 1" by (simp only: of_int_abs [symmetric] of_int_less_iff)
  then show ?thesis by linarith
qed

lemma two_power_le_cast:
  fixes n k :: nat
  assumes "2 ^ k \<le> n"
  shows "(2::rat) ^ k \<le> of_nat n"
proof -
  from assms have "(of_nat (2 ^ k) :: rat) \<le> of_nat n" by (rule of_nat_mono)
  then show ?thesis by simp
qed

lemma less_two_power_cast:
  fixes n k :: nat
  assumes "n < 2 ^ k"
  shows "(of_nat n :: rat) + 1 \<le> 2 ^ k"
proof -
  from assms have "Suc n \<le> 2 ^ k" by simp
  then have "(of_nat (Suc n) :: rat) \<le> of_nat (2 ^ k)" by (rule of_nat_mono)
  then show ?thesis by simp
qed

lemma exponent_bounds:
  assumes "0 < x"
  shows "2 powi (exponent x) \<le> x \<and> x < 2 powi (exponent x + 1)"
proof (cases "1 \<le> x")
  case True
  define n where "n = nat \<lfloor>x\<rfloor>"
  define k where "k = floorlog 2 n"
  from True have fl: "(1::int) \<le> \<lfloor>x\<rfloor>" by linarith
  then have cast: "(of_nat n :: rat) = of_int \<lfloor>x\<rfloor>" unfolding n_def by simp
  have n: "0 < n"
    using fl unfolding n_def by arith
  have lo: "of_nat n \<le> x" and up: "x < of_nat n + 1" unfolding cast by linarith+
  from floorlog_bounds [OF n, of 2] have b: "2 ^ (k - 1) \<le> n" "n < 2 ^ k"
    by (simp_all add: k_def)
  have k: "0 < k"
  proof (rule ccontr)
    assume "\<not> 0 < k"
    with b(2) n show False by simp
  qed
  have e: "exponent x = int (k - 1)"
    using True k by (simp add: exponent_def k_def n_def)
  have e1: "exponent x + 1 = int k" using k unfolding e by simp
  have "(2::rat) powi (exponent x) \<le> x"
    unfolding e power_int_of_nat using two_power_le_cast [OF b(1)] lo by linarith
  moreover have "x < (2::rat) powi (exponent x + 1)"
    unfolding e1 power_int_of_nat using less_two_power_cast [OF b(2)] up by linarith
  ultimately show ?thesis by simp
next
  case False
  define y where "y = 1 / x"
  define m where "m = nat \<lceil>y\<rceil>"
  define k where "k = floorlog 2 (m - 1)"
  from False assms have y: "1 < y" by (simp add: y_def)
  then have cl: "(2::int) \<le> \<lceil>y\<rceil>" by linarith
  then have cast: "(of_nat m :: rat) = of_int \<lceil>y\<rceil>" unfolding m_def by simp
  have m: "2 \<le> m"
    using cl unfolding m_def by arith
  have ym: "y \<le> of_nat m" and my: "of_nat m - 1 < y" unfolding cast by linarith+
  from m have pos: "0 < m - 1" by simp
  from floorlog_bounds [OF pos, of 2] have b: "2 ^ (k - 1) \<le> m - 1" "m - 1 < 2 ^ k"
    by (simp_all add: k_def)
  have k: "0 < k"
  proof (rule ccontr)
    assume "\<not> 0 < k"
    with b(2) pos show False by simp
  qed
  have e: "exponent x = - int k"
    using False by (simp add: exponent_def k_def m_def y_def)
  have e1: "exponent x + 1 = - int (k - 1)" using k unfolding e by simp
  have c: "(of_nat (m - 1) :: rat) = of_nat m - 1" using m by simp
  have up: "y \<le> 2 ^ k" using less_two_power_cast [OF b(2)] ym unfolding c by linarith
  have lo: "2 ^ (k - 1) < y" using two_power_le_cast [OF b(1)] my unfolding c by linarith
  have p1: "(2::rat) powi (- int k) = 1 / 2 ^ k"
    by (simp only: power_int_minus_divide power_int_of_nat)
  have p2: "(2::rat) powi (- int (k - 1)) = 1 / 2 ^ (k - 1)"
    by (simp only: power_int_minus_divide power_int_of_nat)
  have "1 / 2 ^ k \<le> x"
    using up assms by (simp add: y_def field_simps)
  then have "(2::rat) powi (exponent x) \<le> x" unfolding e p1 .
  moreover have "x < 1 / 2 ^ (k - 1)"
    using lo assms by (simp add: y_def field_simps)
  then have "x < (2::rat) powi (exponent x + 1)" unfolding e1 p2 .
  ultimately show ?thesis by (rule conjI)
qed

lemma exponent_eq:
  assumes "2 powi e \<le> x" "x < 2 powi (e + 1)"
  shows "exponent x = e"
proof -
  have "0 < (2::rat) powi e" by simp
  with assms(1) have pos: "0 < x" by linarith
  from exponent_bounds [OF pos] assms
  have l: "(2::rat) powi e < 2 powi (exponent x + 1)" and r: "(2::rat) powi (exponent x) < 2 powi (e + 1)"
    by linarith+
  have "e < exponent x + 1"
  proof (rule ccontr)
    assume "\<not> e < exponent x + 1"
    then have "exponent x + 1 \<le> e" by simp
    then have "(2::rat) powi (exponent x + 1) \<le> 2 powi e" by (rule power_int_increasing) simp
    with l show False by linarith
  qed
  moreover have "exponent x < e + 1"
  proof (rule ccontr)
    assume "\<not> exponent x < e + 1"
    then have "e + 1 \<le> exponent x" by simp
    then have "(2::rat) powi (e + 1) \<le> 2 powi (exponent x)" by (rule power_int_increasing) simp
    with r show False by linarith
  qed
  ultimately show ?thesis by linarith
qed




lemma toDouble_eq:
  assumes "0 < x" "2 powi e \<le> x" "x < 2 powi (e + 1)"
    and "\<bar>x / 2 powi (e - 52) - of_int n\<bar> < 1 / 2"
  shows "toDouble x = of_int n * 2 powi (e - 52)"
proof -
  from assms(1) have a: "\<bar>x\<bar> = x" "sgn x = 1" "x \<noteq> 0" by simp_all
  have "exponent x = e" using assms(2,3) by (rule exponent_eq)
  moreover have "roundEven (x / 2 powi (e - 52)) = n" using assms(4) by (rule roundEven_eq)
  ultimately show ?thesis by (simp add: toDouble_def Let_def a)
qed


text \<open>
  On doubles, 23 correct answers out of 40 show as 57: the quotient rounds below
  \<open>0.575\<close>, and its hundredfold stays below \<open>57.5\<close>.
\<close>

lemma accuracy_23_40: "accuracy 23 40 = 57"
proof -
  have "toDouble (23 / 40) = of_int 5179139571476070 * 2 powi (- 1 - 52)"
    by (rule toDouble_eq) (simp_all add: power_int_minus_divide)
  also have "\<dots> = 5179139571476070 / 2 ^ 53" by (simp add: power_int_minus_divide)
  finally have q: "toDouble (23 / 40) = 5179139571476070 / 2 ^ 53" .
  have "toDouble (5179139571476070 / 2 ^ 53 * 100) = of_int 8092405580431359 * 2 powi (5 - 52)"
    by (rule toDouble_eq) (simp_all add: power_int_minus_divide)
  also have "\<dots> = 8092405580431359 / 2 ^ 47" by (simp add: power_int_minus_divide)
  finally have p: "toDouble (5179139571476070 / 2 ^ 53 * 100) = 8092405580431359 / 2 ^ 47" .
  have "accuracy 23 40 = Math_round (toDouble (toDouble (23 / 40) * 100))"
    by (simp add: accuracy_def)
  also have "\<dots> = Math_round (8092405580431359 / 2 ^ 47)" by (simp only: q p)
  also have "\<dots> = 57" unfolding Math_round_def by (simp add: floor_eq_iff)
  finally show ?thesis .
qed





end
